theory Spec2Isabelle
  imports Complex_Main
begin

text \<open>
  The lexer and the recursive-descent parser of \<^verbatim>\<open>test.py\<close>, as functions on explicit lexer
  and parser states, and the properties of them that the specification states. The other
  file of the repository, \<^verbatim>\<open>ws.py\<close>, is the beginning of a second lexer (a token
  enumeration and the first methods); none of the properties is about it.
\<close>

section \<open>Tokens\<close>

text \<open>
  The token types of \<^verbatim>\<open>test.py\<close> (lines 2-8) are string constants; they form a closed
  enumeration. A token's value is an \<^verbatim>\<open>int\<close>, a \<^verbatim>\<open>float\<close>, a \<^verbatim>\<open>str\<close> or \<^verbatim>\<open>None\<close>.

  Python's \<^verbatim>\<open>float(s)\<close> yields the binary64 number nearest to the decimal number that
  \<open>s\<close> denotes. The rounding is outside this development: \<open>FloatV\<close> carries the exact
  decimal number that is handed to the rounding.
\<close>

datatype token_type =
  INTEGER | FLOAT | STRING | CHAR'
  | PLUS | MINUS | MULTIPLY | DIVIDE | MODULO
  | LPAREN | RPAREN
  | IDENTIFIER | ASSIGN
  | KEYWORD | BOOLEAN
  | EOF
  | COMMA

datatype pyvalue = IntV int | FloatV rat | StrV string | NoneV

datatype token = Token (tok_type: token_type) (tok_value: pyvalue)

text \<open>
  What the program can raise: \<^verbatim>\<open>Exception("Invalid character")\<close> (\<^verbatim>\<open>Lexer.error\<close>),
  \<^verbatim>\<open>Exception("Invalid syntax")\<close> (\<^verbatim>\<open>Parser.error\<close>), the \<^verbatim>\<open>ValueError\<close> of the built-in
  conversions \<^verbatim>\<open>int\<close> and \<^verbatim>\<open>float\<close>, and the \<^verbatim>\<open>TypeError\<close> of \<^verbatim>\<open>str += None\<close>.
  \<open>OutOfFuel\<close> is no exception of the program: the parser's recursion is bounded by a
  fuel argument, and \<open>OutOfFuel\<close> says that the run has not returned within it.
\<close>

datatype error = InvalidCharacter | InvalidSyntax | ValueError | TypeError | OutOfFuel

section \<open>Characters\<close>

text \<open>
  A source text is a Python \<^verbatim>\<open>str\<close>, a sequence of code points. The development covers
  the texts over the code points 0 to 255, one \<^typ>\<open>char\<close> each, and the predicates
  below are \<^verbatim>\<open>str.isspace\<close>, \<^verbatim>\<open>str.isdigit\<close>, \<^verbatim>\<open>str.isalpha\<close> and \<^verbatim>\<open>str.isalnum\<close> on
  that range. Beyond the ASCII digits \<^verbatim>\<open>isdigit\<close> holds of the superscripts
  U+00B2, U+00B3 and U+00B9, and \<^verbatim>\<open>isalnum\<close> also of the fractions U+00BC to U+00BE.
\<close>

definition code :: "char \<Rightarrow> nat" where
  "code c = of_char c"

definition isspace :: "char \<Rightarrow> bool" where
  "isspace c = ((9 \<le> code c \<and> code c \<le> 13) \<or> (28 \<le> code c \<and> code c \<le> 32)
     \<or> code c = 133 \<or> code c = 160)"

definition ascii_digit :: "char \<Rightarrow> bool" where
  "ascii_digit c = (48 \<le> code c \<and> code c \<le> 57)"

definition isdigit :: "char \<Rightarrow> bool" where
  "isdigit c = (ascii_digit c \<or> code c = 178 \<or> code c = 179 \<or> code c = 185)"

definition isalpha :: "char \<Rightarrow> bool" where
  "isalpha c = ((65 \<le> code c \<and> code c \<le> 90) \<or> (97 \<le> code c \<and> code c \<le> 122)
     \<or> code c = 170 \<or> code c = 181 \<or> code c = 186
     \<or> (192 \<le> code c \<and> code c \<le> 214) \<or> (216 \<le> code c \<and> code c \<le> 246)
     \<or> 248 \<le> code c)"

definition isalnum :: "char \<Rightarrow> bool" where
  "isalnum c = (isalpha c \<or> isdigit c \<or> (188 \<le> code c \<and> code c \<le> 190))"

definition dquote :: char where "dquote = CHR 0x22"
definition squote :: char where "squote = CHR 0x27"
definition backslash :: char where "backslash = CHR 0x5C"
definition newline :: char where "newline = CHR 0x0A"
definition tab :: char where "tab = CHR 0x09"

section \<open>The built-in conversions\<close>

text \<open>
  \<^verbatim>\<open>int(s)\<close> and \<^verbatim>\<open>float(s)\<close> on the texts \<^verbatim>\<open>get_number\<close> can pass: characters of
  \<^verbatim>\<open>isdigit\<close> and dots, no sign, no blank, no underscore, no exponent. \<^verbatim>\<open>int\<close> accepts a
  non-empty text of ASCII digits; \<^verbatim>\<open>float\<close> accepts ASCII digits with at most one dot
  and at least one digit. Anything else raises \<^verbatim>\<open>ValueError\<close>. The limit that CPython
  puts on the number of digits of \<^verbatim>\<open>int(s)\<close> (4300 by default, configurable) is not part of
  the development: integers are unbounded.
\<close>

definition digit_val :: "char \<Rightarrow> int" where
  "digit_val c = int (code c) - 48"

definition decimal :: "string \<Rightarrow> int" where
  "decimal s = foldl (\<lambda>a c. 10 * a + digit_val c) 0 s"

definition py_int :: "string \<Rightarrow> error + int" where
  "py_int s = (if s \<noteq> [] \<and> list_all ascii_digit s then Inr (decimal s) else Inl ValueError)"

definition py_float :: "string \<Rightarrow> error + rat" where
  "py_float s =
     (let a = takeWhile (\<lambda>c. c \<noteq> CHR ''.'') s;
          b = drop 1 (dropWhile (\<lambda>c. c \<noteq> CHR ''.'') s)
      in if list_all ascii_digit a \<and> list_all ascii_digit b \<and> a @ b \<noteq> []
         then Inr (of_int (decimal (a @ b)) / 10 ^ length b)
         else Inl ValueError)"

section \<open>The lexer\<close>

text \<open>
  The class \<^verbatim>\<open>Lexer\<close> of \<^verbatim>\<open>test.py\<close> (lines 21-173). Its fields are the text (\<^verbatim>\<open>self.text\<close>,
  here \<open>input_text\<close>), the position and the current character, \<^verbatim>\<open>None\<close> past the end. A
  method that mutates the lexer returns the lexer it leaves; a method that can raise
  returns a sum, the error on the left. Each \<^verbatim>\<open>while\<close> loop is a recursive function on the
  lexer, and terminates because \<^verbatim>\<open>advance\<close> leaves less of the text.
\<close>

record lexer =
  input_text :: string
  position :: nat
  current_char :: "char option"

definition Lexer_init :: "string \<Rightarrow> lexer" where
  "Lexer_init t = \<lparr>input_text = t, position = 0,
     current_char = (if t \<noteq> [] then Some (t ! 0) else None)\<rparr>"

definition advance :: "lexer \<Rightarrow> lexer" where
  "advance l =
     (let p = position l + 1
      in l\<lparr>position := p,
           current_char := (if p < length (input_text l) then Some (input_text l ! p) else None)\<rparr>)"

text \<open>The measure of the lexer's loops: nothing is left once the current character is \<^verbatim>\<open>None\<close>.\<close>

definition remaining :: "lexer \<Rightarrow> nat" where
  "remaining l = (case current_char l of None \<Rightarrow> 0 | Some c \<Rightarrow> Suc (length (input_text l) - position l))"

lemma remaining_advance: "current_char l = Some c \<Longrightarrow> remaining (advance l) < remaining l"
  by (auto simp: remaining_def advance_def Let_def)

text \<open>\<^verbatim>\<open>skip_whitespace\<close> (lines 43-46).\<close>

function skip_whitespace :: "lexer \<Rightarrow> lexer" where
  "skip_whitespace l =
     (case current_char l of
        None \<Rightarrow> l
      | Some c \<Rightarrow> if isspace c then skip_whitespace (advance l) else l)"
  by pat_completeness auto
termination
  by (relation "measure remaining") (auto simp: remaining_advance)

text \<open>
  \<^verbatim>\<open>get_number\<close> (lines 48-58): the loop collects digits and dots into \<^verbatim>\<open>result\<close>, then the
  built-in conversion of \<^verbatim>\<open>result\<close> makes the token, or raises.
\<close>

function get_number_loop :: "string \<Rightarrow> lexer \<Rightarrow> string \<times> lexer" where
  "get_number_loop result l =
     (case current_char l of
        None \<Rightarrow> (result, l)
      | Some c \<Rightarrow>
          if isdigit c \<or> c = CHR ''.'' then get_number_loop (result @ [c]) (advance l)
          else (result, l))"
  by pat_completeness auto
termination
  by (relation "measure (\<lambda>(result, l). remaining l)") (auto simp: remaining_advance)

definition get_number :: "lexer \<Rightarrow> error + (token \<times> lexer)" where
  "get_number l =
     (case get_number_loop [] l of (result, l') \<Rightarrow>
        if CHR ''.'' \<in> set result
        then (case py_float result of Inl e \<Rightarrow> Inl e | Inr v \<Rightarrow> Inr (Token FLOAT (FloatV v), l'))
        else (case py_int result of Inl e \<Rightarrow> Inl e | Inr v \<Rightarrow> Inr (Token INTEGER (IntV v), l')))"

text \<open>
  \<^verbatim>\<open>get_string\<close> (lines 60-79). In the escape branch the character after the backslash may
  be \<^verbatim>\<open>None\<close>; then neither comparison holds and \<^verbatim>\<open>result += self.current_char\<close> raises
  \<^verbatim>\<open>TypeError\<close>.
\<close>

function get_string_loop :: "string \<Rightarrow> lexer \<Rightarrow> error + (string \<times> lexer)" where
  "get_string_loop result l =
     (case current_char l of
        None \<Rightarrow> Inr (result, l)
      | Some c \<Rightarrow>
          if c = dquote then Inr (result, l)
          else if c = backslash then
            (let l1 = advance l
             in case current_char l1 of
                  None \<Rightarrow> Inl TypeError
                | Some d \<Rightarrow>
                    get_string_loop
                      (result @ [if d = CHR ''n'' then newline else if d = CHR ''t'' then tab else d])
                      (advance l1))
          else get_string_loop (result @ [c]) (advance l))"
  by pat_completeness auto
termination
proof (relation "measure (\<lambda>(result, l). remaining l)", goal_cases)
  case 1
  show ?case by simp
next
  case (2 result l c l1 d)
  then have "remaining (advance l1) < remaining l1" "remaining l1 < remaining l"
    by (simp_all add: remaining_advance)
  then show ?case by simp
next
  case (3 result l c)
  then show ?case by (simp add: remaining_advance)
qed

definition get_string :: "lexer \<Rightarrow> error + (token \<times> lexer)" where
  "get_string l =
     (case get_string_loop [] (advance l) of
        Inl e \<Rightarrow> Inl e
      | Inr (result, l') \<Rightarrow> Inr (Token STRING (StrV result), advance l'))"

text \<open>
  \<^verbatim>\<open>get_char\<close> (lines 81-96). \<^verbatim>\<open>result\<close> is the current character, which may be \<^verbatim>\<open>None\<close>; the
  method raises nowhere.
\<close>

definition char_value :: "char option \<Rightarrow> pyvalue" where
  "char_value x = (case x of None \<Rightarrow> NoneV | Some c \<Rightarrow> StrV [c])"

definition get_char :: "lexer \<Rightarrow> token \<times> lexer" where
  "get_char l =
     (let l1 = advance l
      in if current_char l1 = Some backslash then
           (let l2 = advance l1;
                result = (if current_char l2 = Some (CHR ''n'') then StrV [newline]
                          else if current_char l2 = Some (CHR ''t'') then StrV [tab]
                          else char_value (current_char l2))
            in (Token CHAR' result, advance l2))
         else (Token CHAR' (char_value (current_char l1)), advance l1))"

text \<open>\<^verbatim>\<open>get_identifier\<close> (lines 98-112), with the tuple of reserved words of line 109.\<close>

function get_identifier_loop :: "string \<Rightarrow> lexer \<Rightarrow> string \<times> lexer" where
  "get_identifier_loop result l =
     (case current_char l of
        None \<Rightarrow> (result, l)
      | Some c \<Rightarrow>
          if isalnum c \<or> c = CHR ''_'' then get_identifier_loop (result @ [c]) (advance l)
          else (result, l))"
  by pat_completeness auto
termination
  by (relation "measure (\<lambda>(result, l). remaining l)") (auto simp: remaining_advance)

definition keyword_words :: "string list" where
  "keyword_words = [''if'', ''elif'', ''else'', ''match'', ''case'', ''for'', ''while'', ''fun'',
     ''var'', ''const'', ''bool'', ''char'', ''int'', ''float'', ''string'', ''enum'', ''struct'',
     ''list'', ''array'', ''True'', ''False'', ''return'']"

definition get_identifier :: "lexer \<Rightarrow> token \<times> lexer" where
  "get_identifier l =
     (case get_identifier_loop [] l of (result, l') \<Rightarrow>
        if result \<in> set keyword_words then (Token KEYWORD (StrV result), l')
        else (Token IDENTIFIER (StrV result), l'))"

declare skip_whitespace.simps [simp del]
declare get_number_loop.simps [simp del]
declare get_string_loop.simps [simp del]
declare get_identifier_loop.simps [simp del]

text \<open>
  \<^verbatim>\<open>get_next_token\<close> (lines 114-173). After \<^verbatim>\<open>skip_whitespace\<close> the loop continues with a
  character that is no blank, so it runs at most twice.
\<close>

lemma skip_whitespace_stops:
  "current_char (skip_whitespace l) = Some c \<Longrightarrow> \<not> isspace c"
proof (induction l rule: skip_whitespace.induct)
  case (1 l)
  show ?case
  proof (cases "current_char l")
    case None
    with "1.prems" show ?thesis by (simp add: skip_whitespace.simps [of l])
  next
    case (Some d)
    show ?thesis
    proof (cases "isspace d")
      case True
      with Some "1.prems" have "current_char (skip_whitespace (advance l)) = Some c"
        by (simp add: skip_whitespace.simps [of l])
      with "1.IH" Some True show ?thesis by blast
    next
      case False
      with Some "1.prems" show ?thesis by (simp add: skip_whitespace.simps [of l])
    qed
  qed
qed

function get_next_token :: "lexer \<Rightarrow> error + (token \<times> lexer)" where
  "get_next_token l =
     (case current_char l of
        None \<Rightarrow> Inr (Token EOF NoneV, l)
      | Some c \<Rightarrow>
          if isspace c then get_next_token (skip_whitespace l)
          else if isdigit c then get_number l
          else if c = CHR ''+'' then Inr (Token PLUS (StrV ''+''), advance l)
          else if c = CHR ''-'' then Inr (Token MINUS (StrV ''-''), advance l)
          else if c = CHR ''*'' then Inr (Token MULTIPLY (StrV ''*''), advance l)
          else if c = CHR ''/'' then Inr (Token DIVIDE (StrV ''/''), advance l)
          else if c = CHR ''%'' then Inr (Token MODULO (StrV ''%''), advance l)
          else if c = CHR ''('' then Inr (Token LPAREN (StrV ''(''), advance l)
          else if c = CHR '')'' then Inr (Token RPAREN (StrV '')''), advance l)
          else if c = CHR ''='' then Inr (Token ASSIGN (StrV ''=''), advance l)
          else if c = dquote then get_string l
          else if c = squote then Inr (get_char l)
          else if c = CHR '','' then Inr (Token COMMA (StrV '',''), advance l)
          else if isalpha c \<or> c = CHR ''_'' then Inr (get_identifier l)
          else Inl InvalidCharacter)"
  by pat_completeness auto
termination
proof (relation "measure (\<lambda>l. case current_char l of None \<Rightarrow> 0
                                | Some c \<Rightarrow> if isspace c then 1 else (0::nat))", goal_cases)
  case 1
  show ?case by simp
next
  case (2 l c)
  then show ?case
    by (cases "current_char (skip_whitespace l)") (auto dest: skip_whitespace_stops)
qed

declare get_next_token.simps [simp del]

section \<open>The syntax tree\<close>

text \<open>
  One constructor for each node class of \<^verbatim>\<open>test.py\<close> (lines 178-295), with the arguments of
  its \<^verbatim>\<open>__init__\<close>. \<^verbatim>\<open>ForNode.step\<close> and \<^verbatim>\<open>IfNode.else_body\<close> may be \<^verbatim>\<open>None\<close>.
  \<open>NoneNode\<close> is Python's \<^verbatim>\<open>None\<close> where a statement is expected: \<^verbatim>\<open>Parser.statement\<close>
  returns it for a keyword it has no branch for.
\<close>

datatype node =
  NumberNode token
  | StringNode token
  | CharNode token
  | VariableNode token
  | AssignNode node token node
  | BinOpNode node token node
  | UnaryOpNode token node
  | IfNode node "node list" "node list" "node list option"
  | ElifNode node "node list"
  | WhileNode node "node list"
  | ForNode pyvalue node node "node option" "node list"
  | FunctionDefNode pyvalue "pyvalue list" "node list"
  | FunctionCallNode node "node list"
  | ReturnNode node
  | NoneNode

section \<open>The parser\<close>

text \<open>
  The class \<^verbatim>\<open>Parser\<close> of \<^verbatim>\<open>test.py\<close> (lines 300-491): the lexer and the current token. The
  constructor and \<^verbatim>\<open>eat\<close> (lines 308-312) ask the lexer for the next token and raise what
  it raises.
\<close>

record parser =
  lexer :: lexer
  current_token :: token

definition Parser_init :: "lexer \<Rightarrow> error + parser" where
  "Parser_init l =
     (case get_next_token l of
        Inl e \<Rightarrow> Inl e
      | Inr (t, l') \<Rightarrow> Inr \<lparr>lexer = l', current_token = t\<rparr>)"

definition eat :: "token_type \<Rightarrow> parser \<Rightarrow> error + parser" where
  "eat token_type p =
     (if tok_type (current_token p) = token_type
      then (case get_next_token (lexer p) of
              Inl e \<Rightarrow> Inl e
            | Inr (t, l') \<Rightarrow> Inr (p\<lparr>lexer := l', current_token := t\<rparr>))
      else Inl InvalidSyntax)"

text \<open>
  The routines of the parser call each other recursively, and \<^verbatim>\<open>Parser.program\<close> does not
  return on every input. Each recursive routine and each loop takes a fuel argument that
  bounds the depth of the calls; a routine without fuel left yields \<open>OutOfFuel\<close>.
\<close>

text \<open>
  \<^verbatim>\<open>factor\<close>, \<^verbatim>\<open>term\<close> (here \<open>term_rule\<close>) and \<^verbatim>\<open>expr\<close> (lines 314-364); \<open>term_loop\<close> and
  \<open>expr_loop\<close> are their \<^verbatim>\<open>while\<close> loops, with the node built so far.
\<close>

fun factor :: "nat \<Rightarrow> parser \<Rightarrow> error + (node \<times> parser)"
  and term_rule :: "nat \<Rightarrow> parser \<Rightarrow> error + (node \<times> parser)"
  and term_loop :: "nat \<Rightarrow> node \<Rightarrow> parser \<Rightarrow> error + (node \<times> parser)"
  and expr :: "nat \<Rightarrow> parser \<Rightarrow> error + (node \<times> parser)"
  and expr_loop :: "nat \<Rightarrow> node \<Rightarrow> parser \<Rightarrow> error + (node \<times> parser)"
where
  "factor 0 p = Inl OutOfFuel"
| "factor (Suc n) p =
     (let token = current_token p
      in if tok_type token = INTEGER then
           (case eat INTEGER p of Inl e \<Rightarrow> Inl e | Inr p1 \<Rightarrow> Inr (NumberNode token, p1))
         else if tok_type token = FLOAT then
           (case eat FLOAT p of Inl e \<Rightarrow> Inl e | Inr p1 \<Rightarrow> Inr (NumberNode token, p1))
         else if tok_type token = STRING then
           (case eat STRING p of Inl e \<Rightarrow> Inl e | Inr p1 \<Rightarrow> Inr (StringNode token, p1))
         else if tok_type token = CHAR' then
           (case eat CHAR' p of Inl e \<Rightarrow> Inl e | Inr p1 \<Rightarrow> Inr (CharNode token, p1))
         else if tok_type token = IDENTIFIER then
           (case eat IDENTIFIER p of Inl e \<Rightarrow> Inl e | Inr p1 \<Rightarrow> Inr (VariableNode token, p1))
         else if tok_type token = LPAREN then
           (case eat LPAREN p of
              Inl e \<Rightarrow> Inl e
            | Inr p1 \<Rightarrow>
                (case expr n p1 of
                   Inl e \<Rightarrow> Inl e
                 | Inr (node, p2) \<Rightarrow>
                     (case eat RPAREN p2 of Inl e \<Rightarrow> Inl e | Inr p3 \<Rightarrow> Inr (node, p3))))
         else Inl InvalidSyntax)"
| "term_rule 0 p = Inl OutOfFuel"
| "term_rule (Suc n) p =
     (case factor n p of Inl e \<Rightarrow> Inl e | Inr (node, p1) \<Rightarrow> term_loop n node p1)"
| "term_loop 0 node p = Inl OutOfFuel"
| "term_loop (Suc n) node p =
     (if tok_type (current_token p) \<in> {MULTIPLY, DIVIDE, MODULO} then
        (let op_token = current_token p
         in case (if tok_type op_token = MULTIPLY then eat MULTIPLY p
                  else if tok_type op_token = DIVIDE then eat DIVIDE p
                  else if tok_type op_token = MODULO then eat MODULO p
                  else Inr p) of
              Inl e \<Rightarrow> Inl e
            | Inr p1 \<Rightarrow>
                (case factor n p1 of
                   Inl e \<Rightarrow> Inl e
                 | Inr (right, p2) \<Rightarrow> term_loop n (BinOpNode node op_token right) p2))
      else Inr (node, p))"
| "expr 0 p = Inl OutOfFuel"
| "expr (Suc n) p =
     (case term_rule n p of Inl e \<Rightarrow> Inl e | Inr (node, p1) \<Rightarrow> expr_loop n node p1)"
| "expr_loop 0 node p = Inl OutOfFuel"
| "expr_loop (Suc n) node p =
     (if tok_type (current_token p) \<in> {PLUS, MINUS} then
        (let op_token = current_token p
         in case (if tok_type op_token = PLUS then eat PLUS p
                  else if tok_type op_token = MINUS then eat MINUS p
                  else Inr p) of
              Inl e \<Rightarrow> Inl e
            | Inr p1 \<Rightarrow>
                (case term_rule n p1 of
                   Inl e \<Rightarrow> Inl e
                 | Inr (right, p2) \<Rightarrow> expr_loop n (BinOpNode node op_token right) p2))
      else Inr (node, p))"

text \<open>
  \<^verbatim>\<open>variable\<close> (lines 366-369), \<^verbatim>\<open>return_statement\<close> (389-392), \<^verbatim>\<open>function_call\<close> and
  \<^verbatim>\<open>argument_list\<close> (394-408) and \<^verbatim>\<open>assignment_statement\<close> (471-476).
\<close>

definition variable :: "parser \<Rightarrow> error + (node \<times> parser)" where
  "variable p =
     (let node = VariableNode (current_token p)
      in case eat IDENTIFIER p of Inl e \<Rightarrow> Inl e | Inr p1 \<Rightarrow> Inr (node, p1))"

text \<open>\<^verbatim>\<open>self.variable().name\<close>: the value of the token of the node that \<^verbatim>\<open>variable\<close> returns.\<close>

definition variable_name :: "parser \<Rightarrow> error + (pyvalue \<times> parser)" where
  "variable_name p =
     (let name = tok_value (current_token p)
      in case eat IDENTIFIER p of Inl e \<Rightarrow> Inl e | Inr p1 \<Rightarrow> Inr (name, p1))"

definition return_statement :: "nat \<Rightarrow> parser \<Rightarrow> error + (node \<times> parser)" where
  "return_statement n p =
     (case eat KEYWORD p of
        Inl e \<Rightarrow> Inl e
      | Inr p1 \<Rightarrow>
          (case expr n p1 of
             Inl e \<Rightarrow> Inl e
           | Inr (value_node, p2) \<Rightarrow> Inr (ReturnNode value_node, p2)))"

fun argument_loop :: "nat \<Rightarrow> node list \<Rightarrow> parser \<Rightarrow> error + (node list \<times> parser)" where
  "argument_loop 0 args p = Inl OutOfFuel"
| "argument_loop (Suc n) args p =
     (if tok_type (current_token p) = COMMA then
        (case eat COMMA p of
           Inl e \<Rightarrow> Inl e
         | Inr p1 \<Rightarrow>
             (case expr n p1 of
                Inl e \<Rightarrow> Inl e
              | Inr (a, p2) \<Rightarrow> argument_loop n (args @ [a]) p2))
      else Inr (args, p))"

definition argument_list :: "nat \<Rightarrow> parser \<Rightarrow> error + (node list \<times> parser)" where
  "argument_list n p =
     (if tok_type (current_token p) \<noteq> RPAREN then
        (case expr n p of
           Inl e \<Rightarrow> Inl e
         | Inr (a, p1) \<Rightarrow> argument_loop n [a] p1)
      else Inr ([], p))"

definition function_call :: "nat \<Rightarrow> parser \<Rightarrow> error + (node \<times> parser)" where
  "function_call n p =
     (case variable p of
        Inl e \<Rightarrow> Inl e
      | Inr (name, p1) \<Rightarrow>
          (case eat LPAREN p1 of
             Inl e \<Rightarrow> Inl e
           | Inr p2 \<Rightarrow>
               (case argument_list n p2 of
                  Inl e \<Rightarrow> Inl e
                | Inr (arguments, p3) \<Rightarrow>
                    (case eat RPAREN p3 of
                       Inl e \<Rightarrow> Inl e
                     | Inr p4 \<Rightarrow> Inr (FunctionCallNode name arguments, p4)))))"

definition assignment_statement :: "nat \<Rightarrow> parser \<Rightarrow> error + (node \<times> parser)" where
  "assignment_statement n p =
     (case variable p of
        Inl e \<Rightarrow> Inl e
      | Inr (left, p1) \<Rightarrow>
          (let op = current_token p1
           in case eat ASSIGN p1 of
                Inl e \<Rightarrow> Inl e
              | Inr p2 \<Rightarrow>
                  (case expr n p2 of
                     Inl e \<Rightarrow> Inl e
                   | Inr (right, p3) \<Rightarrow> Inr (AssignNode left op right, p3))))"

text \<open>
  \<^verbatim>\<open>statement\<close> (lines 371-387), \<^verbatim>\<open>if_statement\<close>, \<^verbatim>\<open>while_statement\<close> and \<^verbatim>\<open>for_statement\<close>
  (410-451) and \<^verbatim>\<open>block\<close> (478-482). In \<^verbatim>\<open>statement\<close> a keyword that is none of \<^verbatim>\<open>if\<close>,
  \<^verbatim>\<open>while\<close>, \<^verbatim>\<open>for\<close> and \<^verbatim>\<open>return\<close> falls through the inner chain: the method returns
  \<^verbatim>\<open>None\<close> and the parser is as it was.
\<close>

fun statement :: "nat \<Rightarrow> parser \<Rightarrow> error + (node \<times> parser)"
  and if_statement :: "nat \<Rightarrow> parser \<Rightarrow> error + (node \<times> parser)"
  and elif_loop :: "nat \<Rightarrow> node list \<Rightarrow> parser \<Rightarrow> error + (node list \<times> parser)"
  and while_statement :: "nat \<Rightarrow> parser \<Rightarrow> error + (node \<times> parser)"
  and for_statement :: "nat \<Rightarrow> parser \<Rightarrow> error + (node \<times> parser)"
  and block :: "nat \<Rightarrow> parser \<Rightarrow> error + (node list \<times> parser)"
  and block_loop :: "nat \<Rightarrow> node list \<Rightarrow> parser \<Rightarrow> error + (node list \<times> parser)"
where
  "statement 0 p = Inl OutOfFuel"
| "statement (Suc n) p =
     (if tok_type (current_token p) = KEYWORD then
        (if tok_value (current_token p) = StrV ''if'' then if_statement n p
         else if tok_value (current_token p) = StrV ''while'' then while_statement n p
         else if tok_value (current_token p) = StrV ''for'' then for_statement n p
         else if tok_value (current_token p) = StrV ''return'' then return_statement n p
         else Inr (NoneNode, p))
      else if tok_type (current_token p) = IDENTIFIER then
        (if current_char (lexer p) = Some (CHR ''('') then function_call n p
         else assignment_statement n p)
      else Inl InvalidSyntax)"
| "if_statement 0 p = Inl OutOfFuel"
| "if_statement (Suc n) p =
     (case eat KEYWORD p of
        Inl e \<Rightarrow> Inl e
      | Inr p1 \<Rightarrow>
          (case expr n p1 of
             Inl e \<Rightarrow> Inl e
           | Inr (condition, p2) \<Rightarrow>
               (case block n p2 of
                  Inl e \<Rightarrow> Inl e
                | Inr (body, p3) \<Rightarrow>
                    (case elif_loop n [] p3 of
                       Inl e \<Rightarrow> Inl e
                     | Inr (elif_nodes, p4) \<Rightarrow>
                         if tok_type (current_token p4) = KEYWORD
                            \<and> tok_value (current_token p4) = StrV ''else''
                         then (case eat KEYWORD p4 of
                                 Inl e \<Rightarrow> Inl e
                               | Inr p5 \<Rightarrow>
                                   (case block n p5 of
                                      Inl e \<Rightarrow> Inl e
                                    | Inr (else_body, p6) \<Rightarrow>
                                        Inr (IfNode condition body elif_nodes (Some else_body), p6)))
                         else Inr (IfNode condition body elif_nodes None, p4)))))"
| "elif_loop 0 elif_nodes p = Inl OutOfFuel"
| "elif_loop (Suc n) elif_nodes p =
     (if tok_type (current_token p) = KEYWORD \<and> tok_value (current_token p) = StrV ''elif''
      then (case eat KEYWORD p of
              Inl e \<Rightarrow> Inl e
            | Inr p1 \<Rightarrow>
                (case expr n p1 of
                   Inl e \<Rightarrow> Inl e
                 | Inr (elif_condition, p2) \<Rightarrow>
                     (case block n p2 of
                        Inl e \<Rightarrow> Inl e
                      | Inr (elif_body, p3) \<Rightarrow>
                          elif_loop n (elif_nodes @ [ElifNode elif_condition elif_body]) p3)))
      else Inr (elif_nodes, p))"
| "while_statement 0 p = Inl OutOfFuel"
| "while_statement (Suc n) p =
     (case eat KEYWORD p of
        Inl e \<Rightarrow> Inl e
      | Inr p1 \<Rightarrow>
          (case expr n p1 of
             Inl e \<Rightarrow> Inl e
           | Inr (condition, p2) \<Rightarrow>
               (case block n p2 of
                  Inl e \<Rightarrow> Inl e
                | Inr (body, p3) \<Rightarrow> Inr (WhileNode condition body, p3))))"
| "for_statement 0 p = Inl OutOfFuel"
| "for_statement (Suc n) p =
     (case eat KEYWORD p of
        Inl e \<Rightarrow> Inl e
      | Inr p1 \<Rightarrow>
      (case eat LPAREN p1 of
        Inl e \<Rightarrow> Inl e
      | Inr p2 \<Rightarrow>
      (case variable_name p2 of
        Inl e \<Rightarrow> Inl e
      | Inr (var_name, p3) \<Rightarrow>
      (case eat ASSIGN p3 of
        Inl e \<Rightarrow> Inl e
      | Inr p4 \<Rightarrow>
      (case expr n p4 of
        Inl e \<Rightarrow> Inl e
      | Inr (start, p5) \<Rightarrow>
      (case eat COMMA p5 of
        Inl e \<Rightarrow> Inl e
      | Inr p6 \<Rightarrow>
      (case expr n p6 of
        Inl e \<Rightarrow> Inl e
      | Inr (end_node, p7) \<Rightarrow>
      (case (if tok_type (current_token p7) = COMMA
             then (case eat COMMA p7 of
                     Inl e \<Rightarrow> Inl e
                   | Inr p8 \<Rightarrow>
                       (case expr n p8 of
                          Inl e \<Rightarrow> Inl e
                        | Inr (step, p9) \<Rightarrow> Inr (Some step, p9)))
             else Inr (None, p7)) of
        Inl e \<Rightarrow> Inl e
      | Inr (step, p10) \<Rightarrow>
      (case eat RPAREN p10 of
        Inl e \<Rightarrow> Inl e
      | Inr p11 \<Rightarrow>
      (case block n p11 of
        Inl e \<Rightarrow> Inl e
      | Inr (body, p12) \<Rightarrow> Inr (ForNode var_name start end_node step body, p12)))))))))))"
| "block 0 p = Inl OutOfFuel"
| "block (Suc n) p = block_loop n [] p"
| "block_loop 0 statements p = Inl OutOfFuel"
| "block_loop (Suc n) statements p =
     (if tok_type (current_token p) \<noteq> EOF then
        (case statement n p of
           Inl e \<Rightarrow> Inl e
         | Inr (s, p1) \<Rightarrow> block_loop n (statements @ [s]) p1)
      else Inr (statements, p))"

text \<open>
  \<^verbatim>\<open>parameter_list\<close> and \<^verbatim>\<open>function_definition\<close> (lines 453-469) and \<^verbatim>\<open>program\<close> (484-491).
\<close>

fun parameter_loop :: "nat \<Rightarrow> pyvalue list \<Rightarrow> parser \<Rightarrow> error + (pyvalue list \<times> parser)" where
  "parameter_loop 0 params p = Inl OutOfFuel"
| "parameter_loop (Suc n) params p =
     (if tok_type (current_token p) = COMMA then
        (case eat COMMA p of
           Inl e \<Rightarrow> Inl e
         | Inr p1 \<Rightarrow>
             (case variable_name p1 of
                Inl e \<Rightarrow> Inl e
              | Inr (name, p2) \<Rightarrow> parameter_loop n (params @ [name]) p2))
      else Inr (params, p))"

definition parameter_list :: "nat \<Rightarrow> parser \<Rightarrow> error + (pyvalue list \<times> parser)" where
  "parameter_list n p =
     (if tok_type (current_token p) = IDENTIFIER then
        (case variable_name p of
           Inl e \<Rightarrow> Inl e
         | Inr (name, p1) \<Rightarrow> parameter_loop n [name] p1)
      else Inr ([], p))"

definition function_definition :: "nat \<Rightarrow> parser \<Rightarrow> error + (node \<times> parser)" where
  "function_definition n p =
     (case eat KEYWORD p of
        Inl e \<Rightarrow> Inl e
      | Inr p1 \<Rightarrow>
      (case variable_name p1 of
        Inl e \<Rightarrow> Inl e
      | Inr (name, p2) \<Rightarrow>
      (case eat LPAREN p2 of
        Inl e \<Rightarrow> Inl e
      | Inr p3 \<Rightarrow>
      (case parameter_list n p3 of
        Inl e \<Rightarrow> Inl e
      | Inr (params, p4) \<Rightarrow>
      (case eat RPAREN p4 of
        Inl e \<Rightarrow> Inl e
      | Inr p5 \<Rightarrow>
      (case block n p5 of
        Inl e \<Rightarrow> Inl e
      | Inr (body, p6) \<Rightarrow> Inr (FunctionDefNode name params body, p6)))))))"

fun program_loop :: "nat \<Rightarrow> node list \<Rightarrow> parser \<Rightarrow> error + (node list \<times> parser)" where
  "program_loop 0 nodes p = Inl OutOfFuel"
| "program_loop (Suc n) nodes p =
     (if tok_type (current_token p) \<noteq> EOF then
        (case (if tok_type (current_token p) = KEYWORD
                  \<and> tok_value (current_token p) = StrV ''fun''
               then function_definition n p
               else statement n p) of
           Inl e \<Rightarrow> Inl e
         | Inr (s, p1) \<Rightarrow> program_loop n (nodes @ [s]) p1)
      else Inr (nodes, p))"

definition program :: "nat \<Rightarrow> parser \<Rightarrow> error + (node list \<times> parser)" where
  "program n p = program_loop n [] p"

text \<open>
  The example usage at the end of \<^verbatim>\<open>test.py\<close>:
  \<^verbatim>\<open>lexer = Lexer(code); parser = Parser(lexer); ast = parser.program()\<close>.
\<close>

definition parse :: "nat \<Rightarrow> string \<Rightarrow> error + node list" where
  "parse n code_text =
     (case Parser_init (Lexer_init code_text) of
        Inl e \<Rightarrow> Inl e
      | Inr p \<Rightarrow> (case program n p of Inl e \<Rightarrow> Inl e | Inr (ast, p') \<Rightarrow> Inr ast))"

text \<open>An expression alone: \<^verbatim>\<open>Parser(Lexer(code)).expr()\<close>.\<close>

definition parse_expr :: "nat \<Rightarrow> string \<Rightarrow> error + node" where
  "parse_expr n code_text =
     (case Parser_init (Lexer_init code_text) of
        Inl e \<Rightarrow> Inl e
      | Inr p \<Rightarrow> (case expr n p of Inl e \<Rightarrow> Inl e | Inr (node, p') \<Rightarrow> Inr node))"

text \<open>A statement alone: \<^verbatim>\<open>Parser(Lexer(code)).statement()\<close>.\<close>

definition parse_statement :: "nat \<Rightarrow> string \<Rightarrow> error + node" where
  "parse_statement n code_text =
     (case Parser_init (Lexer_init code_text) of
        Inl e \<Rightarrow> Inl e
      | Inr p \<Rightarrow> (case statement n p of Inl e \<Rightarrow> Inl e | Inr (node, p') \<Rightarrow> Inr node))"

section \<open>Auxiliary notions for the properties\<close>

text \<open>
  The lexer over the text \<open>t\<close> with its cursor at index \<open>i\<close>, its current character being
  the one the constructor and \<^verbatim>\<open>advance\<close> store for that index.
\<close>

definition lexer_at :: "string \<Rightarrow> nat \<Rightarrow> lexer" where
  "lexer_at t i = \<lparr>input_text = t, position = i,
     current_char = (if i < length t then Some (t ! i) else None)\<rparr>"

text \<open>Calling \<^verbatim>\<open>get_next_token\<close> \<open>n\<close> times in a row, the tokens in the order returned.\<close>

fun get_tokens :: "nat \<Rightarrow> lexer \<Rightarrow> error + (token list \<times> lexer)" where
  "get_tokens 0 l = Inr ([], l)"
| "get_tokens (Suc n) l =
     (case get_next_token l of
        Inl e \<Rightarrow> Inl e
      | Inr (t, l1) \<Rightarrow>
          (case get_tokens n l1 of
             Inl e \<Rightarrow> Inl e
           | Inr (ts, l2) \<Rightarrow> Inr (t # ts, l2)))"

text \<open>
  \<open>ahead t i l\<close>: the lexer \<open>l\<close> is the lexer over \<open>t\<close> at its own position, which is
  at least \<open>i\<close>.
\<close>

definition ahead :: "string \<Rightarrow> nat \<Rightarrow> lexer \<Rightarrow> bool" where
  "ahead t i l = (l = lexer_at t (position l) \<and> i \<le> position l)"

text \<open>The keywords \<^verbatim>\<open>Parser.statement\<close> has a branch for.\<close>

definition statement_keywords :: "pyvalue list" where
  "statement_keywords = [StrV ''if'', StrV ''while'', StrV ''for'', StrV ''return'']"

text \<open>The characters \<^verbatim>\<open>get_number\<close> collects.\<close>

definition numeric_char :: "char \<Rightarrow> bool" where
  "numeric_char c = (isdigit c \<or> c = CHR ''.'')"



text \<open>
  The operands of a chain, in the order of the text: \<open>term_chain\<close> reads what the loop of
  \<^verbatim>\<open>Parser.term\<close> reads, \<open>(("*" | "/" | "%") factor)*\<close>, and \<open>expr_chain\<close> what the loop of
  \<^verbatim>\<open>Parser.expr\<close> reads, \<open>(("+" | "-") term)*\<close>, each as the list of the operator tokens
  with their right operands. \<open>left_nested\<close> nests such a list to the left of a first
  operand: \<open>((first op1 x1) op2 x2) ...\<close>.
\<close>

definition left_nested :: "node \<Rightarrow> (token \<times> node) list \<Rightarrow> node" where
  "left_nested first rest = foldl (\<lambda>left (op, right). BinOpNode left op right) first rest"

fun term_chain :: "nat \<Rightarrow> parser \<Rightarrow> error + ((token \<times> node) list \<times> parser)" where
  "term_chain 0 p = Inl OutOfFuel"
| "term_chain (Suc n) p =
     (if tok_type (current_token p) \<in> {MULTIPLY, DIVIDE, MODULO} then
        (case eat (tok_type (current_token p)) p of
           Inl e \<Rightarrow> Inl e
         | Inr p1 \<Rightarrow>
             (case factor n p1 of
                Inl e \<Rightarrow> Inl e
              | Inr (right, p2) \<Rightarrow>
                  (case term_chain n p2 of
                     Inl e \<Rightarrow> Inl e
                   | Inr (rest, p3) \<Rightarrow> Inr ((current_token p, right) # rest, p3))))
      else Inr ([], p))"

fun expr_chain :: "nat \<Rightarrow> parser \<Rightarrow> error + ((token \<times> node) list \<times> parser)" where
  "expr_chain 0 p = Inl OutOfFuel"
| "expr_chain (Suc n) p =
     (if tok_type (current_token p) \<in> {PLUS, MINUS} then
        (case eat (tok_type (current_token p)) p of
           Inl e \<Rightarrow> Inl e
         | Inr p1 \<Rightarrow>
             (case term_rule n p1 of
                Inl e \<Rightarrow> Inl e
              | Inr (right, p2) \<Rightarrow>
                  (case expr_chain n p2 of
                     Inl e \<Rightarrow> Inl e
                   | Inr (rest, p3) \<Rightarrow> Inr ((current_token p, right) # rest, p3))))
      else Inr ([], p))"

text \<open>
  \<open>settled a b\<close>: the outcome \<open>a\<close> of a run with less fuel is either out of fuel or already
  the outcome \<open>b\<close> of the run with more.
\<close>

definition settled :: "error + 'a \<Rightarrow> error + 'a \<Rightarrow> bool" where
  "settled a b = (a = Inl OutOfFuel \<or> a = b)"


text \<open>
  A string literal read from a list of characters, from after the opening quote: the
  decoded value and the number of characters before the closing quote or the end, or the
  error of a backslash that ends the text. A literal is written as a list of items, plain
  characters and escapes; \<open>source_of\<close> is what is written for an item and \<open>value_of\<close>
  what it stands for.
\<close>

definition unescape :: "char \<Rightarrow> char" where
  "unescape d = (if d = CHR ''n'' then newline else if d = CHR ''t'' then tab else d)"

fun string_body :: "string \<Rightarrow> error + (string \<times> nat)" where
  "string_body [] = Inr ([], 0)"
| "string_body (c # cs) =
     (if c = dquote then Inr ([], 0)
      else if c = backslash then
        (case cs of
           [] \<Rightarrow> Inl TypeError
         | d # ds \<Rightarrow>
             (case string_body ds of
                Inl e \<Rightarrow> Inl e
              | Inr (v, k) \<Rightarrow> Inr (unescape d # v, k + 2)))
      else (case string_body cs of Inl e \<Rightarrow> Inl e | Inr (v, k) \<Rightarrow> Inr (c # v, k + 1)))"

datatype item = Plain char | Escape char

fun source_of :: "item \<Rightarrow> string" where
  "source_of (Plain c) = [c]"
| "source_of (Escape d) = [backslash, d]"

fun value_of :: "item \<Rightarrow> char" where
  "value_of (Plain c) = c"
| "value_of (Escape d) = unescape d"

fun plain_ok :: "item \<Rightarrow> bool" where
  "plain_ok (Plain c) = (c \<noteq> dquote \<and> c \<noteq> backslash)"
| "plain_ok (Escape d) = True"

section \<open>The lexer stays on its text\<close>

lemma Lexer_init_at: "Lexer_init t = lexer_at t 0"
  by (cases t) (simp_all add: Lexer_init_def lexer_at_def)

lemma advance_at: "advance (lexer_at t i) = lexer_at t (Suc i)"
  by (simp add: advance_def lexer_at_def)

lemma current_char_at:
  "current_char (lexer_at t i) = (if i < length t then Some (t ! i) else None)"
  by (simp add: lexer_at_def)

lemma position_at: "position (lexer_at t i) = i"
  by (simp add: lexer_at_def)

lemma input_text_at: "input_text (lexer_at t i) = t"
  by (simp add: lexer_at_def)

lemma ahead_at: "i \<le> j \<Longrightarrow> ahead t i (lexer_at t j)"
  by (simp add: ahead_def position_at)

lemma ahead_trans: "ahead t j l \<Longrightarrow> i \<le> j \<Longrightarrow> ahead t i l"
  by (simp add: ahead_def)

lemma aheadE: "ahead t i l \<Longrightarrow> (\<And>j. i \<le> j \<Longrightarrow> l = lexer_at t j \<Longrightarrow> P) \<Longrightarrow> P"
  by (auto simp: ahead_def)

lemma skip_whitespace_at: "ahead t i (skip_whitespace (lexer_at t i))"
proof (induction "length t - i" arbitrary: i)
  case 0
  then show ?case
    by (subst skip_whitespace.simps) (auto simp: current_char_at ahead_at)
next
  case (Suc k)
  then have "k = length t - Suc i" by simp
  from Suc.hyps(1) [OF this] have "ahead t i (skip_whitespace (lexer_at t (Suc i)))"
    by (rule ahead_trans) simp
  then show ?case
    by (subst skip_whitespace.simps) (auto simp: current_char_at advance_at ahead_at)
qed

lemma number_loop_at: "ahead t i (snd (get_number_loop r (lexer_at t i)))"
proof (induction "length t - i" arbitrary: i r)
  case 0
  then show ?case
    by (subst get_number_loop.simps) (auto simp: current_char_at ahead_at)
next
  case (Suc k)
  then have "k = length t - Suc i" by simp
  from Suc.hyps(1) [OF this]
  have "ahead t i (snd (get_number_loop (r @ [t ! i]) (lexer_at t (Suc i))))"
    by (rule ahead_trans) simp
  then show ?case
    by (subst get_number_loop.simps) (auto simp: current_char_at advance_at ahead_at)
qed

lemma identifier_loop_at: "ahead t i (snd (get_identifier_loop r (lexer_at t i)))"
proof (induction "length t - i" arbitrary: i r)
  case 0
  then show ?case
    by (subst get_identifier_loop.simps) (auto simp: current_char_at ahead_at)
next
  case (Suc k)
  then have "k = length t - Suc i" by simp
  from Suc.hyps(1) [OF this]
  have "ahead t i (snd (get_identifier_loop (r @ [t ! i]) (lexer_at t (Suc i))))"
    by (rule ahead_trans) simp
  then show ?case
    by (subst get_identifier_loop.simps) (auto simp: current_char_at advance_at ahead_at)
qed

lemma string_loop_at:
  "get_string_loop r (lexer_at t i) = Inr (r', l') \<Longrightarrow> ahead t i l'"
proof (induction "length t - i" arbitrary: i r rule: less_induct)
  case less
  note step = less.prems [unfolded get_string_loop.simps [of r "lexer_at t i"]]
  show ?case
  proof (cases "i < length t")
    case False
    with step show ?thesis by (auto simp: current_char_at ahead_at)
  next
    case i: True
    show ?thesis
    proof (cases "t ! i = dquote")
      case True
      with i step show ?thesis by (auto simp: current_char_at ahead_at)
    next
      case nq: False
      show ?thesis
      proof (cases "t ! i = backslash")
        case False
        with nq i step have "get_string_loop (r @ [t ! i]) (lexer_at t (Suc i)) = Inr (r', l')"
          by (auto simp: current_char_at advance_at)
        moreover from i have "length t - Suc i < length t - i" by simp
        ultimately have "ahead t (Suc i) l'" by (rule less.hyps [rotated])
        then show ?thesis by (rule ahead_trans) simp
      next
        case True
        with nq i step obtain d where d: "Suc i < length t"
          and "get_string_loop (r @ [d]) (lexer_at t (Suc (Suc i))) = Inr (r', l')"
          by (auto simp: current_char_at advance_at Let_def split: if_splits)
        moreover from i have "length t - Suc (Suc i) < length t - i" by simp
        ultimately have "ahead t (Suc (Suc i)) l'" by (metis less.hyps)
        then show ?thesis by (rule ahead_trans) simp
      qed
    qed
  qed
qed

lemma get_number_at: "get_number (lexer_at t i) = Inr (tok, l') \<Longrightarrow> ahead t i l'"
  using number_loop_at [of t i "[]"]
  by (auto simp: get_number_def split: prod.splits if_splits sum.splits)

lemma get_identifier_at: "get_identifier (lexer_at t i) = (tok, l') \<Longrightarrow> ahead t i l'"
  using identifier_loop_at [of t i "[]"]
  by (auto simp: get_identifier_def split: prod.splits if_splits)

lemma get_string_at:
  assumes "get_string (lexer_at t i) = Inr (tok, l')"
  shows "ahead t i l'"
proof -
  from assms obtain r l1 where "get_string_loop [] (lexer_at t (Suc i)) = Inr (r, l1)"
    and l': "l' = advance l1"
    by (auto simp: get_string_def advance_at split: sum.splits)
  from string_loop_at [OF this(1)] obtain j where "Suc i \<le> j" "l1 = lexer_at t j"
    by (rule aheadE)
  with l' show ?thesis by (simp add: advance_at ahead_at)
qed

lemma get_char_at: "get_char (lexer_at t i) = (tok, l') \<Longrightarrow> ahead t i l'"
  by (auto simp: get_char_def Let_def advance_at ahead_at split: if_splits)

lemma get_next_token_at:
  assumes "get_next_token (lexer_at t i) = Inr (tok, l')"
  shows "ahead t i l'"
proof -
  have nospace: "ahead t i l'"
    if "get_next_token (lexer_at t i) = Inr (tok, l')"
      and "\<And>c. current_char (lexer_at t i) = Some c \<Longrightarrow> \<not> isspace c" for i
  proof (cases "i < length t")
    case False
    with that(1) show ?thesis
      by (subst (asm) get_next_token.simps) (auto simp: current_char_at ahead_at)
  next
    case True
    then have c: "current_char (lexer_at t i) = Some (t ! i)" by (simp add: current_char_at)
    with that(2) have ns: "\<not> isspace (t ! i)" by blast
    from that(1) show ?thesis
      by (subst (asm) get_next_token.simps)
         (auto simp: c ns advance_at ahead_at split: if_splits
           dest: get_number_at get_string_at get_char_at get_identifier_at)
  qed
  have sk: "ahead t i (skip_whitespace (lexer_at t i))" by (rule skip_whitespace_at)
  show ?thesis
  proof (cases "\<exists>c. current_char (lexer_at t i) = Some c \<and> isspace c")
    case False
    with nospace [OF assms] show ?thesis by blast
  next
    case True
    from sk obtain k where k: "i \<le> k" "skip_whitespace (lexer_at t i) = lexer_at t k"
      by (rule aheadE)
    with True assms have "get_next_token (lexer_at t k) = Inr (tok, l')"
      by (subst (asm) get_next_token.simps) auto
    moreover have "\<And>c. current_char (lexer_at t k) = Some c \<Longrightarrow> \<not> isspace c"
      using skip_whitespace_stops [of "lexer_at t i"] k by simp
    ultimately have "ahead t k l'" by (rule nospace)
    with k show ?thesis by (auto intro: ahead_trans)
  qed
qed

lemma get_tokens_at:
  "get_tokens k (lexer_at t i) = Inr (ts, l') \<Longrightarrow> ahead t i l'"
proof (induction k arbitrary: i ts)
  case 0
  then show ?case by (auto simp: ahead_at)
next
  case (Suc k)
  from Suc.prems obtain tok l1 ts' where a: "get_next_token (lexer_at t i) = Inr (tok, l1)"
    and b: "get_tokens k l1 = Inr (ts', l')"
    by (auto split: sum.splits)
  from get_next_token_at [OF a] obtain j1 where j1: "i \<le> j1" "l1 = lexer_at t j1"
    by (rule aheadE)
  with Suc.IH [of j1 ts'] b have "ahead t j1 l'" by blast
  with j1 show ?case by (auto intro: ahead_trans)
qed

lemma eof_at: "length t \<le> j \<Longrightarrow> get_next_token (lexer_at t j) = Inr (Token EOF NoneV, lexer_at t j)"
  by (subst get_next_token.simps) (simp add: current_char_at)

lemma eof_tokens_at:
  "length t \<le> j \<Longrightarrow> get_tokens n (lexer_at t j) = Inr (replicate n (Token EOF NoneV), lexer_at t j)"
  by (induction n) (simp_all add: eof_at)

text \<open>
  Claim C9. Let the lexer have been constructed over any text and called any number of
  times, and let its cursor have reached the end of the text. Then every further call of
  \<^verbatim>\<open>get_next_token\<close> returns the end-of-stream token, does not raise, and leaves the lexer
  as it is: the cursor does not move.
\<close>

theorem eof_is_idempotent:
  assumes "get_tokens k (Lexer_init t) = Inr (ts, l)"
    and "length (input_text l) \<le> position l"
  shows "get_tokens n l = Inr (replicate n (Token EOF NoneV), l)"
proof -
  from assms(1) have "ahead t 0 l"
    using get_tokens_at [of k t 0 ts l] by (simp add: Lexer_init_at)
  then obtain j where j: "l = lexer_at t j" by (auto simp: ahead_def)
  with assms(2) have "length t \<le> j" by (simp add: position_at input_text_at)
  with j show ?thesis by (simp add: eof_tokens_at)
qed

theorem eof_is_idempotent_witness:
  "get_tokens 2 (Lexer_init ''ab 1'')
     = Inr ([Token IDENTIFIER (StrV ''ab''), Token INTEGER (IntV 1)],
            \<lparr>input_text = ''ab 1'', position = 4, current_char = None\<rparr>)
   \<and> length (input_text \<lparr>input_text = ''ab 1'', position = 4, current_char = None\<rparr>)
       \<le> position \<lparr>input_text = ''ab 1'', position = 4, current_char = None\<rparr>
   \<and> get_tokens 3 \<lparr>input_text = ''ab 1'', position = 4, current_char = None\<rparr>
     = Inr (replicate 3 (Token EOF NoneV), \<lparr>input_text = ''ab 1'', position = 4, current_char = None\<rparr>)"
proof -
  have a: "get_tokens 2 (Lexer_init ''ab 1'')
     = Inr ([Token IDENTIFIER (StrV ''ab''), Token INTEGER (IntV 1)],
            \<lparr>input_text = ''ab 1'', position = 4, current_char = None\<rparr>)"
    by code_simp
  have b: "length (input_text \<lparr>input_text = ''ab 1'', position = 4, current_char = None\<rparr>)
       \<le> position \<lparr>input_text = ''ab 1'', position = 4, current_char = None\<rparr>"
    by simp
  from eof_is_idempotent [OF a b, of 3] a b show ?thesis by blast
qed


section \<open>Fuel\<close>

text \<open>
  More fuel does not change an outcome other than \<open>OutOfFuel\<close>: what a routine returns or
  raises with some fuel, it returns or raises with any larger fuel.
\<close>

lemma settled_refl: "settled a a"
  by (simp add: settled_def)

lemma settled_bind:
  assumes "settled a b" and "\<And>x. settled (f x) (g x)"
  shows "settled (case a of Inl e \<Rightarrow> Inl e | Inr x \<Rightarrow> f x) (case b of Inl e \<Rightarrow> Inl e | Inr x \<Rightarrow> g x)"
  using assms by (auto simp: settled_def split: sum.splits)

lemma settled_prod:
  assumes "\<And>x y. settled (f x y) (g x y)"
  shows "settled (case z of (x, y) \<Rightarrow> f x y) (case z of (x, y) \<Rightarrow> g x y)"
  using assms by (cases z) simp

lemma settled_if:
  assumes "c \<Longrightarrow> settled a b" and "\<not> c \<Longrightarrow> settled a' b'"
  shows "settled (if c then a else a') (if c then b else b')"
  using assms by simp

lemma settled_let:
  assumes "\<And>x. settled (f x) (g x)"
  shows "settled (let x = v in f x) (let x = v in g x)"
  using assms by (simp add: Let_def)

lemmas settled_intros = settled_bind settled_prod settled_if settled_let

lemma expr_fuel:
  "settled (factor n p) (factor (Suc n) p)
   \<and> settled (term_rule n p) (term_rule (Suc n) p)
   \<and> settled (term_loop n node p) (term_loop (Suc n) node p)
   \<and> settled (expr n p) (expr (Suc n) p)
   \<and> settled (expr_loop n node p) (expr_loop (Suc n) node p)"
proof (induction n arbitrary: p node)
  case 0
  show ?case by (simp add: settled_def)
next
  case (Suc n)
  have IH: "settled (factor n p) (factor (Suc n) p)"
    "settled (term_rule n p) (term_rule (Suc n) p)"
    "settled (term_loop n node p) (term_loop (Suc n) node p)"
    "settled (expr n p) (expr (Suc n) p)"
    "settled (expr_loop n node p) (expr_loop (Suc n) node p)" for p node
    using Suc.IH [of p node] by simp_all
  have "settled (factor (Suc n) p) (factor (Suc (Suc n)) p)"
    by (subst factor.simps(2) [of "Suc n"], subst factor.simps(2) [of n p])
       (intro settled_intros settled_refl IH)
  moreover have "settled (term_rule (Suc n) p) (term_rule (Suc (Suc n)) p)"
    by (subst term_rule.simps(2) [of "Suc n"], subst term_rule.simps(2) [of n p])
       (intro settled_intros settled_refl IH)
  moreover have "settled (term_loop (Suc n) node p) (term_loop (Suc (Suc n)) node p)"
    by (subst term_loop.simps(2) [of "Suc n"], subst term_loop.simps(2) [of n node p])
       (intro settled_intros settled_refl IH)
  moreover have "settled (expr (Suc n) p) (expr (Suc (Suc n)) p)"
    by (subst expr.simps(2) [of "Suc n"], subst expr.simps(2) [of n p])
       (intro settled_intros settled_refl IH)
  moreover have "settled (expr_loop (Suc n) node p) (expr_loop (Suc (Suc n)) node p)"
    by (subst expr_loop.simps(2) [of "Suc n"], subst expr_loop.simps(2) [of n node p])
       (intro settled_intros settled_refl IH)
  ultimately show ?case by simp
qed

lemmas factor_fuel = expr_fuel [THEN conjunct1]
lemmas expr_fuel' = expr_fuel [THEN conjunct2, THEN conjunct2, THEN conjunct2, THEN conjunct1]

lemma argument_loop_fuel: "settled (argument_loop n args p) (argument_loop (Suc n) args p)"
proof (induction n arbitrary: args p)
  case 0
  show ?case by (simp add: settled_def)
next
  case (Suc n)
  show ?case
    by (subst argument_loop.simps(2) [of "Suc n"], subst argument_loop.simps(2) [of n args p])
       (intro settled_intros settled_refl Suc.IH expr_fuel')
qed

lemma argument_list_fuel: "settled (argument_list n p) (argument_list (Suc n) p)"
  unfolding argument_list_def by (intro settled_intros settled_refl argument_loop_fuel expr_fuel')

lemma function_call_fuel: "settled (function_call n p) (function_call (Suc n) p)"
  unfolding function_call_def by (intro settled_intros settled_refl argument_list_fuel)

lemma assignment_statement_fuel:
  "settled (assignment_statement n p) (assignment_statement (Suc n) p)"
  unfolding assignment_statement_def by (intro settled_intros settled_refl expr_fuel')

lemma return_statement_fuel: "settled (return_statement n p) (return_statement (Suc n) p)"
  unfolding return_statement_def by (intro settled_intros settled_refl expr_fuel')

lemmas simple_fuel = expr_fuel' function_call_fuel assignment_statement_fuel return_statement_fuel

lemma statement_fuel:
  "settled (statement n p) (statement (Suc n) p)
   \<and> settled (if_statement n p) (if_statement (Suc n) p)
   \<and> settled (elif_loop n nodes p) (elif_loop (Suc n) nodes p)
   \<and> settled (while_statement n p) (while_statement (Suc n) p)
   \<and> settled (for_statement n p) (for_statement (Suc n) p)
   \<and> settled (block n p) (block (Suc n) p)
   \<and> settled (block_loop n nodes p) (block_loop (Suc n) nodes p)"
proof (induction n arbitrary: p nodes)
  case 0
  show ?case by (simp add: settled_def)
next
  case (Suc n)
  have IH: "settled (statement n p) (statement (Suc n) p)"
    "settled (if_statement n p) (if_statement (Suc n) p)"
    "settled (elif_loop n nodes p) (elif_loop (Suc n) nodes p)"
    "settled (while_statement n p) (while_statement (Suc n) p)"
    "settled (for_statement n p) (for_statement (Suc n) p)"
    "settled (block n p) (block (Suc n) p)"
    "settled (block_loop n nodes p) (block_loop (Suc n) nodes p)" for p nodes
    using Suc.IH [of p nodes] by simp_all
  have "settled (statement (Suc n) p) (statement (Suc (Suc n)) p)"
    by (subst statement.simps(2) [of "Suc n"], subst statement.simps(2) [of n p])
       (intro settled_intros settled_refl IH simple_fuel)
  moreover have "settled (if_statement (Suc n) p) (if_statement (Suc (Suc n)) p)"
    by (subst if_statement.simps(2) [of "Suc n"], subst if_statement.simps(2) [of n p])
       (intro settled_intros settled_refl IH simple_fuel)
  moreover have "settled (elif_loop (Suc n) nodes p) (elif_loop (Suc (Suc n)) nodes p)"
    by (subst elif_loop.simps(2) [of "Suc n"], subst elif_loop.simps(2) [of n nodes p])
       (intro settled_intros settled_refl IH simple_fuel)
  moreover have "settled (while_statement (Suc n) p) (while_statement (Suc (Suc n)) p)"
    by (subst while_statement.simps(2) [of "Suc n"], subst while_statement.simps(2) [of n p])
       (intro settled_intros settled_refl IH simple_fuel)
  moreover have "settled (for_statement (Suc n) p) (for_statement (Suc (Suc n)) p)"
    by (subst for_statement.simps(2) [of "Suc n"], subst for_statement.simps(2) [of n p])
       (intro settled_intros settled_refl IH simple_fuel)
  moreover have "settled (block (Suc n) p) (block (Suc (Suc n)) p)"
    by (subst block.simps(2) [of "Suc n"], subst block.simps(2) [of n p])
       (intro settled_intros settled_refl IH simple_fuel)
  moreover have "settled (block_loop (Suc n) nodes p) (block_loop (Suc (Suc n)) nodes p)"
    by (subst block_loop.simps(2) [of "Suc n"], subst block_loop.simps(2) [of n nodes p])
       (intro settled_intros settled_refl IH simple_fuel)
  ultimately show ?case by simp
qed

lemmas statement_fuel' = statement_fuel [THEN conjunct1]
lemmas block_fuel = statement_fuel [THEN conjunct2, THEN conjunct2, THEN conjunct2, THEN conjunct2,
  THEN conjunct2, THEN conjunct1]

lemma parameter_loop_fuel: "settled (parameter_loop n ps p) (parameter_loop (Suc n) ps p)"
proof (induction n arbitrary: ps p)
  case 0
  show ?case by (simp add: settled_def)
next
  case (Suc n)
  show ?case
    by (subst parameter_loop.simps(2) [of "Suc n"], subst parameter_loop.simps(2) [of n ps p])
       (intro settled_intros settled_refl Suc.IH)
qed

lemma parameter_list_fuel: "settled (parameter_list n p) (parameter_list (Suc n) p)"
  unfolding parameter_list_def by (intro settled_intros settled_refl parameter_loop_fuel)

lemma function_definition_fuel:
  "settled (function_definition n p) (function_definition (Suc n) p)"
  unfolding function_definition_def
  by (intro settled_intros settled_refl parameter_list_fuel block_fuel)

lemma program_loop_fuel: "settled (program_loop n nodes p) (program_loop (Suc n) nodes p)"
proof (induction n arbitrary: nodes p)
  case 0
  show ?case by (simp add: settled_def)
next
  case (Suc n)
  show ?case
    by (subst program_loop.simps(2) [of "Suc n"], subst program_loop.simps(2) [of n nodes p])
       (intro settled_intros settled_refl Suc.IH function_definition_fuel statement_fuel')
qed

lemma settled_trans: "settled a b \<Longrightarrow> settled b c \<Longrightarrow> settled a c"
  by (auto simp: settled_def)

lemma settled_add:
  assumes "\<And>n. settled (f n) (f (Suc n))"
  shows "settled (f n) (f (n + k))"
proof (induction k)
  case 0
  show ?case by (simp add: settled_refl)
next
  case (Suc k)
  from Suc assms [of "n + k"] show ?case by (auto intro: settled_trans)
qed

lemma parse_fuel: "settled (parse n code_text) (parse (n + k) code_text)"
proof -
  have "settled (program_loop n [] p) (program_loop (n + k) [] p)" for p
    by (rule settled_add) (rule program_loop_fuel)
  then show ?thesis
    unfolding parse_def program_def by (intro settled_intros settled_refl)
qed

lemma parse_expr_fuel: "settled (parse_expr n code_text) (parse_expr (n + k) code_text)"
proof -
  have "settled (expr n p) (expr (n + k) p)" for p
    by (rule settled_add) (rule expr_fuel')
  then show ?thesis
    unfolding parse_expr_def by (intro settled_intros settled_refl)
qed

lemma parse_statement_fuel:
  "settled (parse_statement n code_text) (parse_statement (n + k) code_text)"
proof -
  have "settled (statement n p) (statement (n + k) p)" for p
    by (rule settled_add) (rule statement_fuel')
  then show ?thesis
    unfolding parse_statement_def by (intro settled_intros settled_refl)
qed

lemma fuel_irrelevant:
  assumes "parse n code_text = r" and "r \<noteq> Inl OutOfFuel"
  shows "parse m code_text = Inl OutOfFuel \<or> parse m code_text = r"
proof (cases "m \<le> n")
  case True
  then have "settled (parse m code_text) (parse (m + (n - m)) code_text)"
    by (intro parse_fuel)
  with True assms show ?thesis by (simp add: settled_def)
next
  case False
  then have "settled (parse n code_text) (parse (n + (m - n)) code_text)"
    by (intro parse_fuel)
  with False assms show ?thesis by (simp add: settled_def)
qed

section \<open>Termination of the parser\<close>

lemma statement_unknown_keyword:
  assumes "tok_type (current_token p) = KEYWORD"
    and "tok_value (current_token p) \<notin> set statement_keywords"
  shows "statement (Suc n) p = Inr (NoneNode, p)"
  using assms by (simp add: statement_keywords_def)

lemma block_loop_unknown_keyword:
  assumes "tok_type (current_token p) = KEYWORD"
    and "tok_value (current_token p) \<notin> set statement_keywords"
  shows "block_loop n statements p = Inl OutOfFuel"
proof (induction n arbitrary: statements)
  case 0
  show ?case by simp
next
  case (Suc n)
  show ?case
  proof (cases n)
    case 0
    with assms show ?thesis by simp
  next
    case (Suc m)
    with assms Suc.IH [of "statements @ [NoneNode]"] show ?thesis
      by (simp add: statement_unknown_keyword del: statement.simps)
  qed
qed

lemma program_loop_unknown_keyword:
  assumes "tok_type (current_token p) = KEYWORD"
    and "tok_value (current_token p) \<notin> set statement_keywords"
    and "tok_value (current_token p) \<noteq> StrV ''fun''"
  shows "program_loop n nodes p = Inl OutOfFuel"
proof (induction n arbitrary: nodes)
  case 0
  show ?case by simp
next
  case (Suc n)
  show ?case
  proof (cases n)
    case 0
    with assms show ?thesis by simp
  next
    case (Suc m)
    with assms Suc.IH [of "nodes @ [NoneNode]"] show ?thesis
      by (simp add: statement_unknown_keyword del: statement.simps)
  qed
qed

text \<open>
  Claim C1 says that \<^verbatim>\<open>Parser.program\<close> terminates on every text, with the complete
  list of nodes or with an error. The program does not: \<^verbatim>\<open>statement\<close> has no branch for a
  keyword other than \<^verbatim>\<open>if\<close>, \<^verbatim>\<open>while\<close>, \<^verbatim>\<open>for\<close> and \<^verbatim>\<open>return\<close>, returns \<^verbatim>\<open>None\<close> without
  consuming the token, and the loop of \<^verbatim>\<open>program\<close> calls it again on the same token. On the
  first line of the example text of \<^verbatim>\<open>test.py\<close> the run is out of fuel for every amount
  of fuel: it never returns and never raises.
\<close>

theorem program_diverges_on_var: "parse n ''var x = 10'' = Inl OutOfFuel"
proof -
  have "Parser_init (Lexer_init ''var x = 10'')
      = Inr \<lparr>lexer = \<lparr>input_text = ''var x = 10'', position = 3, current_char = Some CHR '' ''\<rparr>,
             current_token = Token KEYWORD (StrV ''var'')\<rparr>"
    by code_simp
  moreover have "program_loop n []
      \<lparr>lexer = \<lparr>input_text = ''var x = 10'', position = 3, current_char = Some CHR '' ''\<rparr>,
       current_token = Token KEYWORD (StrV ''var'')\<rparr> = Inl OutOfFuel"
    by (rule program_loop_unknown_keyword) (simp_all add: statement_keywords_def)
  ultimately show ?thesis by (simp add: parse_def program_def)
qed


section \<open>Numeric literals\<close>

lemma number_loop_run:
  "get_number_loop r (lexer_at t i)
     = (r @ takeWhile numeric_char (drop i t),
        lexer_at t (i + length (takeWhile numeric_char (drop i t))))"
proof (induction "length t - i" arbitrary: i r)
  case 0
  then show ?case
    by (subst get_number_loop.simps) (simp add: current_char_at)
next
  case (Suc k)
  then have i: "i < length t" and k: "k = length t - Suc i" by simp_all
  from i have d: "drop i t = t ! i # drop (Suc i) t" by (simp add: Cons_nth_drop_Suc)
  show ?case
    by (subst get_number_loop.simps)
       (simp add: current_char_at i advance_at d Suc.hyps(1) [OF k] numeric_char_def)
qed

lemma get_number_run:
  "get_number (lexer_at t i) =
     (let run = takeWhile numeric_char (drop i t)
      in if CHR ''.'' \<in> set run
         then (case py_float run of Inl e \<Rightarrow> Inl e
               | Inr v \<Rightarrow> Inr (Token FLOAT (FloatV v), lexer_at t (i + length run)))
         else (case py_int run of Inl e \<Rightarrow> Inl e
               | Inr v \<Rightarrow> Inr (Token INTEGER (IntV v), lexer_at t (i + length run))))"
  by (simp add: get_number_def number_loop_run Let_def)

lemma isdigit_not_space: "isdigit c \<Longrightarrow> \<not> isspace c"
  by (auto simp: isdigit_def isspace_def ascii_digit_def)

lemma get_next_token_digit:
  "i < length t \<Longrightarrow> isdigit (t ! i) \<Longrightarrow> get_next_token (lexer_at t i) = get_number (lexer_at t i)"
  by (subst get_next_token.simps) (simp add: current_char_at isdigit_not_space)

lemma py_float_two_dots:
  assumes "2 \<le> count_list s (CHR ''.'')"
  shows "py_float s = Inl ValueError"
proof -
  let ?b = "drop 1 (dropWhile (\<lambda>c. c \<noteq> CHR ''.'') s)"
  have s: "s = takeWhile (\<lambda>c. c \<noteq> CHR ''.'') s @ dropWhile (\<lambda>c. c \<noteq> CHR ''.'') s" by simp
  have "count_list (takeWhile (\<lambda>c. c \<noteq> CHR ''.'') s) (CHR ''.'') = 0"
    by (induction s) auto
  with assms have 2: "2 \<le> count_list (dropWhile (\<lambda>c. c \<noteq> CHR ''.'') s) (CHR ''.'')"
    by (subst (asm) s) (simp del: takeWhile_dropWhile_id)
  then have "1 \<le> count_list ?b (CHR ''.'')"
    by (cases "dropWhile (\<lambda>c. c \<noteq> CHR ''.'') s") (auto split: if_splits)
  then have "CHR ''.'' \<in> set ?b"
    by (metis count_list_0_iff not_one_le_zero)
  moreover have "\<not> ascii_digit (CHR ''.'')" by (simp add: ascii_digit_def code_def)
  ultimately have "\<not> list_all ascii_digit ?b" by (auto simp: list_all_iff)
  then show ?thesis by (simp add: py_float_def Let_def)
qed

lemma py_float_not_lex: "py_float s \<noteq> Inl InvalidCharacter"
  by (simp add: py_float_def Let_def)

lemma py_int_not_lex: "py_int s \<noteq> Inl InvalidCharacter"
  by (simp add: py_int_def)

text \<open>
  Claim C4, amended. Where the lexer finds a digit, it consumes the whole run of digits
  and dots that starts there and hands all of it to the conversion: to \<^verbatim>\<open>float\<close> if the
  run has a dot, to \<^verbatim>\<open>int\<close> otherwise, and the token, if any, leaves the cursor right
  after the run. The outcome is never the lexer's own error. A run with two or more dots
  is not parsed in part: the conversion raises \<^verbatim>\<open>ValueError\<close>.
\<close>

theorem number_run_converted_whole:
  assumes "i < length t" and "isdigit (t ! i)"
  shows "(let run = takeWhile numeric_char (drop i t)
          in get_next_token (lexer_at t i) =
               (if CHR ''.'' \<in> set run
                then (case py_float run of Inl e \<Rightarrow> Inl e
                      | Inr v \<Rightarrow> Inr (Token FLOAT (FloatV v), lexer_at t (i + length run)))
                else (case py_int run of Inl e \<Rightarrow> Inl e
                      | Inr v \<Rightarrow> Inr (Token INTEGER (IntV v), lexer_at t (i + length run))))
             \<and> get_next_token (lexer_at t i) \<noteq> Inl InvalidCharacter
             \<and> (if 2 \<le> count_list run (CHR ''.'')
                then get_next_token (lexer_at t i) = Inl ValueError
                else True))"
proof -
  let ?run = "takeWhile numeric_char (drop i t)"
  have a: "get_next_token (lexer_at t i) =
               (if CHR ''.'' \<in> set ?run
                then (case py_float ?run of Inl e \<Rightarrow> Inl e
                      | Inr v \<Rightarrow> Inr (Token FLOAT (FloatV v), lexer_at t (i + length ?run)))
                else (case py_int ?run of Inl e \<Rightarrow> Inl e
                      | Inr v \<Rightarrow> Inr (Token INTEGER (IntV v), lexer_at t (i + length ?run))))"
    using assms by (simp add: get_next_token_digit get_number_run Let_def)
  have b: "get_next_token (lexer_at t i) \<noteq> Inl InvalidCharacter"
    using py_float_not_lex [of ?run] py_int_not_lex [of ?run]
    by (auto simp: a split: sum.splits)
  have c: "get_next_token (lexer_at t i) = Inl ValueError" if "2 \<le> count_list ?run (CHR ''.'')"
  proof -
    from that have "CHR ''.'' \<in> set ?run"
      by (metis count_list_0_iff not_numeral_le_zero)
    with py_float_two_dots [OF that] show ?thesis by (simp add: a)
  qed
  from a b c show ?thesis by (simp add: Let_def)
qed

theorem number_run_converted_whole_witness:
  "0 < length ''12.5+'' \<and> isdigit (''12.5+'' ! 0)
   \<and> takeWhile numeric_char (drop 0 ''12.5+'') = ''12.5''
   \<and> get_next_token (lexer_at ''12.5+'' 0)
       = Inr (Token FLOAT (FloatV (25 / 2)), lexer_at ''12.5+'' (0 + length ''12.5''))"
proof -
  have h1: "0 < length ''12.5+''" by simp
  have h2: "isdigit (''12.5+'' ! 0)" by (simp add: isdigit_def ascii_digit_def code_def)
  have r: "takeWhile numeric_char (drop 0 ''12.5+'') = ''12.5''"
    by (simp add: numeric_char_def isdigit_def ascii_digit_def code_def)
  have f: "py_float ''12.5'' = Inr (25 / 2)"
    by (simp add: py_float_def ascii_digit_def code_def decimal_def digit_val_def)
  from number_run_converted_whole [OF h1 h2, unfolded r Let_def] h1 h2 r f show ?thesis
    by simp
qed

text \<open>Claim C4 as stated fails: the run \<^verbatim>\<open>1.2.3\<close> raises.\<close>

theorem two_dots_raise: "get_next_token (Lexer_init ''1.2.3'') = Inl ValueError"
  by code_simp


















section \<open>String and character literals\<close>

text \<open>
  What holds of the literals: the loop of \<^verbatim>\<open>get_string\<close> reads the body as \<open>string_body\<close>
  does; a string literal with its closing quote lexes to the values of its items, the
  cursor after the closing quote; without a closing quote, and without a backslash at the
  very end, it lexes to the values of all the items left, the cursor beyond the end. A
  character literal lexes to its character, decoded, but the cursor stays on the character
  after it, which is the closing quote.
\<close>

lemma special_distinct [simp]:
  "backslash \<noteq> dquote" "dquote \<noteq> backslash" "backslash \<noteq> CHR ''n''"
  "backslash \<noteq> CHR ''t''"
  by (simp_all add: backslash_def dquote_def)

lemma string_loop_body:
  "get_string_loop r (lexer_at t i) =
     (case string_body (drop i t) of
        Inl e \<Rightarrow> Inl e
      | Inr (v, k) \<Rightarrow> Inr (r @ v, lexer_at t (i + k)))"
proof (induction "length t - i" arbitrary: i r rule: less_induct)
  case less
  show ?case
  proof (cases "i < length t")
    case False
    then show ?thesis
      by (subst get_string_loop.simps) (simp add: current_char_at)
  next
    case i: True
    then have d: "drop i t = t ! i # drop (Suc i) t" by (simp add: Cons_nth_drop_Suc)
    show ?thesis
    proof (cases "Suc i < length t")
      case False
      with i have e: "drop (Suc i) t = []" by simp
      from i have m1: "length t - Suc i < length t - i" by simp
      show ?thesis
        by (subst get_string_loop.simps)
           (auto simp: current_char_at advance_at Let_def i False d e less.hyps [OF m1]
              split: sum.splits)
    next
      case True
      then have d2: "drop (Suc i) t = t ! Suc i # drop (Suc (Suc i)) t"
        by (simp add: Cons_nth_drop_Suc)
      from i have m1: "length t - Suc i < length t - i" by simp
      from i have m2: "length t - Suc (Suc i) < length t - i" by simp
      show ?thesis
        by (subst get_string_loop.simps)
           (auto simp: current_char_at advance_at Let_def i True d d2 unescape_def
              less.hyps [OF m1] less.hyps [OF m2] split: sum.splits)
    qed
  qed
qed

lemma get_string_body:
  "get_string (lexer_at t i) =
     (case string_body (drop (Suc i) t) of
        Inl e \<Rightarrow> Inl e
      | Inr (v, k) \<Rightarrow> Inr (Token STRING (StrV v), lexer_at t (Suc (Suc (i + k)))))"
  by (simp add: get_string_def advance_at string_loop_body split: sum.splits)

lemma dquote_class:
  "\<not> isspace dquote" "\<not> isdigit dquote" "dquote \<noteq> CHR ''+''" "dquote \<noteq> CHR ''-''"
  "dquote \<noteq> CHR ''*''" "dquote \<noteq> CHR ''/''" "dquote \<noteq> CHR ''%''" "dquote \<noteq> CHR ''(''"
  "dquote \<noteq> CHR '')''" "dquote \<noteq> CHR ''=''"
  by (simp_all add: dquote_def isspace_def isdigit_def ascii_digit_def code_def)

lemma squote_class:
  "\<not> isspace squote" "\<not> isdigit squote" "squote \<noteq> CHR ''+''" "squote \<noteq> CHR ''-''"
  "squote \<noteq> CHR ''*''" "squote \<noteq> CHR ''/''" "squote \<noteq> CHR ''%''" "squote \<noteq> CHR ''(''"
  "squote \<noteq> CHR '')''" "squote \<noteq> CHR ''=''" "squote \<noteq> dquote"
  by (simp_all add: squote_def dquote_def isspace_def isdigit_def ascii_digit_def code_def)

lemma get_next_token_dquote:
  "i < length t \<Longrightarrow> t ! i = dquote \<Longrightarrow> get_next_token (lexer_at t i) = get_string (lexer_at t i)"
  by (subst get_next_token.simps) (simp add: current_char_at dquote_class)

lemma get_next_token_squote:
  "i < length t \<Longrightarrow> t ! i = squote \<Longrightarrow>
     get_next_token (lexer_at t i) = Inr (get_char (lexer_at t i))"
  by (subst get_next_token.simps) (simp add: current_char_at squote_class)

lemma string_body_closed:
  "list_all plain_ok items \<Longrightarrow>
     string_body (concat (map source_of items) @ dquote # rest)
       = Inr (map value_of items, length (concat (map source_of items)))"
proof (induction items)
  case Nil
  show ?case by simp
next
  case (Cons x items)
  then show ?case by (cases x) simp_all
qed

lemma string_body_open:
  "list_all plain_ok items \<Longrightarrow>
     string_body (concat (map source_of items))
       = Inr (map value_of items, length (concat (map source_of items)))"
proof (induction items)
  case Nil
  show ?case by simp
next
  case (Cons x items)
  then show ?case by (cases x) simp_all
qed

lemma drop_head: "drop i t = c # cs \<Longrightarrow> i < length t \<and> t ! i = c \<and> drop (Suc i) t = cs"
  by (metis Cons_nth_drop_Suc drop_all list.distinct(1) list.inject not_le)

lemma string_literal_decoded:
  assumes "list_all plain_ok items"
    and "drop i t = dquote # concat (map source_of items) @ dquote # rest"
  shows "get_next_token (lexer_at t i)
           = Inr (Token STRING (StrV (map value_of items)),
                  lexer_at t (i + length (concat (map source_of items)) + 2))
         \<and> drop (i + length (concat (map source_of items)) + 2) t = rest"
proof -
  from drop_head [OF assms(2)] have i: "i < length t" "t ! i = dquote"
    and d: "drop (Suc i) t = concat (map source_of items) @ dquote # rest" by simp_all
  have "drop (length (concat (map source_of items)) + 1) (drop (Suc i) t) = rest"
    by (simp add: d)
  then have "drop (i + length (concat (map source_of items)) + 2) t = rest"
    by (simp add: add.commute add.left_commute)
  with i d string_body_closed [OF assms(1), of rest] show ?thesis
    by (simp add: get_next_token_dquote get_string_body)
qed

lemma unterminated_string_decoded:
  assumes "list_all plain_ok items"
    and "drop i t = dquote # concat (map source_of items)"
  shows "get_next_token (lexer_at t i)
           = Inr (Token STRING (StrV (map value_of items)), lexer_at t (Suc (length t)))"
proof -
  from drop_head [OF assms(2)] have i: "i < length t" "t ! i = dquote"
    and d: "drop (Suc i) t = concat (map source_of items)" by simp_all
  from d have "length (concat (map source_of items)) = length t - Suc i"
    by (metis length_drop)
  with i have "Suc (Suc (i + length (concat (map source_of items)))) = Suc (length t)" by simp
  with i d string_body_open [OF assms(1)] show ?thesis
    by (simp add: get_next_token_dquote get_string_body)
qed

lemma char_literal_plain:
  assumes "drop i t = squote # c # rest" and "c \<noteq> backslash"
  shows "get_next_token (lexer_at t i) = Inr (Token CHAR' (StrV [c]), lexer_at t (i + 2))
         \<and> drop (i + 2) t = rest"
proof -
  from drop_head [OF assms(1)] have i: "i < length t" "t ! i = squote"
    and d: "drop (Suc i) t = c # rest" by simp_all
  from drop_head [OF d] have j: "Suc i < length t" "t ! Suc i = c"
    and "drop (Suc (Suc i)) t = rest" by simp_all
  with i assms(2) show ?thesis
    by (simp add: get_next_token_squote get_char_def Let_def advance_at current_char_at
        char_value_def)
qed

lemma char_literal_escape:
  assumes "drop i t = squote # backslash # d # rest"
  shows "get_next_token (lexer_at t i) = Inr (Token CHAR' (StrV [unescape d]), lexer_at t (i + 3))
         \<and> drop (i + 3) t = rest"
proof -
  from drop_head [OF assms(1)] have i: "i < length t" "t ! i = squote"
    and d: "drop (Suc i) t = backslash # d # rest" by simp_all
  from drop_head [OF d] have j: "Suc i < length t" "t ! Suc i = backslash"
    and d2: "drop (Suc (Suc i)) t = d # rest" by simp_all
  from drop_head [OF d2] have k: "Suc (Suc i) < length t" "t ! Suc (Suc i) = d"
    and "drop (Suc (Suc (Suc i))) t = rest" by simp_all
  with i j show ?thesis
    by (simp add: get_next_token_squote get_char_def Let_def advance_at current_char_at
        char_value_def unescape_def eval_nat_numeral)
qed

text \<open>
  Claim C8 says that string and character literals decode the escapes and consume the
  closing quote. \<^verbatim>\<open>get_char\<close> yields the tab for the literal \<^verbatim>\<open>'\t'\<close>, but its last
  \<^verbatim>\<open>advance\<close>, commented "Skip closing quote", only moves the cursor onto the closing
  quote: the quote is the lexer's current character afterwards, and the next call reads it
  as the opening quote of a second character literal, with the value \<^verbatim>\<open>None\<close>. The string
  literal \<^verbatim>\<open>"a\nb"\<close> lexes to its three characters and the closing quote is consumed.
\<close>

theorem char_literal_keeps_closing_quote:
  "get_next_token (Lexer_init [squote, backslash, CHR ''t'', squote])
     = Inr (Token CHAR' (StrV [tab]), lexer_at [squote, backslash, CHR ''t'', squote] 3)
   \<and> current_char (lexer_at [squote, backslash, CHR ''t'', squote] 3) = Some squote
   \<and> get_tokens 3 (Lexer_init [squote, backslash, CHR ''t'', squote])
     = Inr ([Token CHAR' (StrV [tab]), Token CHAR' NoneV, Token EOF NoneV],
            lexer_at [squote, backslash, CHR ''t'', squote] 5)
   \<and> get_tokens 2 (Lexer_init [dquote, CHR ''a'', backslash, CHR ''n'', CHR ''b'', dquote])
     = Inr ([Token STRING (StrV [CHR ''a'', newline, CHR ''b'']), Token EOF NoneV],
            lexer_at [dquote, CHR ''a'', backslash, CHR ''n'', CHR ''b'', dquote] 6)"
  by code_simp

text \<open>
  Claim C10 says that a string literal without its closing quote does not raise. The
  loop of \<^verbatim>\<open>get_string\<close> stops at the end of the text, but its escape branch does not look
  for the end: after a backslash that ends the text the current character is \<^verbatim>\<open>None\<close>,
  and \<^verbatim>\<open>result += self.current_char\<close> raises \<^verbatim>\<open>TypeError\<close>.
\<close>

theorem unterminated_string_raises:
  "get_next_token (Lexer_init [dquote, CHR ''a'', backslash]) = Inl TypeError"
  by code_simp


section \<open>Expressions\<close>

lemma left_nested_Cons:
  "left_nested first ((op, right) # rest) = left_nested (BinOpNode first op right) rest"
  by (simp add: left_nested_def)

lemma left_nested_Nil: "left_nested first [] = first"
  by (simp add: left_nested_def)

lemma term_loop_chain:
  "term_loop n left p =
     (case term_chain n p of
        Inl e \<Rightarrow> Inl e
      | Inr (rest, p') \<Rightarrow> Inr (left_nested left rest, p'))"
proof (induction n arbitrary: left p)
  case 0
  show ?case by simp
next
  case (Suc n)
  show ?case
    by (auto simp: Suc.IH Let_def left_nested_Cons left_nested_Nil split: sum.splits)
qed

lemma expr_loop_chain:
  "expr_loop n left p =
     (case expr_chain n p of
        Inl e \<Rightarrow> Inl e
      | Inr (rest, p') \<Rightarrow> Inr (left_nested left rest, p'))"
proof (induction n arbitrary: left p)
  case 0
  show ?case by simp
next
  case (Suc n)
  show ?case
    by (auto simp: Suc.IH Let_def left_nested_Cons left_nested_Nil split: sum.splits)
qed

text \<open>
  Claim C6. Both levels of the expression grammar nest to the left. The node that the
  loop of \<^verbatim>\<open>term\<close> (of \<^verbatim>\<open>expr\<close>) builds from the operand parsed so far is that operand with
  the chain of \<open>*\<close>, \<open>/\<close>, \<open>%\<close> (of \<open>+\<close>, \<open>-\<close>) operands that follows nested to its left, in the
  order of the text, and the loop raises what reading the chain raises. \<^verbatim>\<open>1 - 2 - 3\<close>
  parses to \<open>(1 - 2) - 3\<close>, and \<^verbatim>\<open>8 / 4 % 3\<close> to \<open>(8 / 4) % 3\<close>.
\<close>

theorem chains_nest_to_the_left:
  "term_loop n left p =
     (case term_chain n p of
        Inl e \<Rightarrow> Inl e
      | Inr (rest, p') \<Rightarrow> Inr (left_nested left rest, p'))
   \<and> expr_loop n left p =
     (case expr_chain n p of
        Inl e \<Rightarrow> Inl e
      | Inr (rest, p') \<Rightarrow> Inr (left_nested left rest, p'))
   \<and> parse_expr 8 ''1 - 2 - 3''
     = Inr (BinOpNode
              (BinOpNode (NumberNode (Token INTEGER (IntV 1))) (Token MINUS (StrV ''-''))
                 (NumberNode (Token INTEGER (IntV 2))))
              (Token MINUS (StrV ''-'')) (NumberNode (Token INTEGER (IntV 3))))
   \<and> parse_expr 8 ''8 / 4 % 3''
     = Inr (BinOpNode
              (BinOpNode (NumberNode (Token INTEGER (IntV 8))) (Token DIVIDE (StrV ''/''))
                 (NumberNode (Token INTEGER (IntV 4))))
              (Token MODULO (StrV ''%'')) (NumberNode (Token INTEGER (IntV 3))))"
proof -
  have "parse_expr 8 ''1 - 2 - 3''
     = Inr (BinOpNode
              (BinOpNode (NumberNode (Token INTEGER (IntV 1))) (Token MINUS (StrV ''-''))
                 (NumberNode (Token INTEGER (IntV 2))))
              (Token MINUS (StrV ''-'')) (NumberNode (Token INTEGER (IntV 3))))"
    by code_simp
  moreover have "parse_expr 8 ''8 / 4 % 3''
     = Inr (BinOpNode
              (BinOpNode (NumberNode (Token INTEGER (IntV 8))) (Token DIVIDE (StrV ''/''))
                 (NumberNode (Token INTEGER (IntV 4))))
              (Token MODULO (StrV ''%'')) (NumberNode (Token INTEGER (IntV 3))))"
    by code_simp
  ultimately show ?thesis
    using term_loop_chain [of n left p] expr_loop_chain [of n left p] by simp
qed

section \<open>Statements and blocks\<close>

lemma function_call_shape:
  "function_call n p = Inr (node, p') \<Longrightarrow>
     \<exists>arguments. node = FunctionCallNode (VariableNode (current_token p)) arguments"
  by (auto simp: function_call_def variable_def Let_def split: sum.splits)

lemma assignment_statement_shape:
  "assignment_statement n p = Inr (node, p') \<Longrightarrow>
     \<exists>op right. tok_type op = ASSIGN \<and> node = AssignNode (VariableNode (current_token p)) op right"
  by (auto simp: assignment_statement_def variable_def Let_def eat_def split: sum.splits if_splits)

text \<open>
  Claim C5. On an identifier token \<^verbatim>\<open>statement\<close> looks at the lexer's current character,
  the next character not yet consumed: if it is \<open>(\<close> the statement is parsed by
  \<^verbatim>\<open>function_call\<close> and a node it returns is a call of that identifier; otherwise it is
  parsed by \<^verbatim>\<open>assignment_statement\<close> and a node it returns assigns to that identifier
  through an \<open>=\<close> token. \<^verbatim>\<open>add(5, 3)\<close> parses to the call of \<open>add\<close> with exactly the
  arguments 5 and 3.
\<close>

theorem identifier_statement_dispatch:
  "(tok_type (current_token p) = IDENTIFIER \<longrightarrow>
      statement (Suc n) p
        = (if current_char (lexer p) = Some (CHR ''('') then function_call n p
           else assignment_statement n p)
      \<and> (statement (Suc n) p = Inr (node, p') \<longrightarrow>
           (if current_char (lexer p) = Some (CHR ''('')
            then (\<exists>arguments. node = FunctionCallNode (VariableNode (current_token p)) arguments)
            else (\<exists>op right. tok_type op = ASSIGN
                    \<and> node = AssignNode (VariableNode (current_token p)) op right))))
   \<and> parse_statement 8 ''add(5, 3)''
       = Inr (FunctionCallNode (VariableNode (Token IDENTIFIER (StrV ''add'')))
                [NumberNode (Token INTEGER (IntV 5)), NumberNode (Token INTEGER (IntV 3))])"
proof -
  have "parse_statement 8 ''add(5, 3)''
       = Inr (FunctionCallNode (VariableNode (Token IDENTIFIER (StrV ''add'')))
                [NumberNode (Token INTEGER (IntV 5)), NumberNode (Token INTEGER (IntV 3))])"
    by code_simp
  then show ?thesis
    using function_call_shape [of n p node p'] assignment_statement_shape [of n p node p']
    by auto
qed

theorem identifier_statement_dispatch_witness:
  "tok_type (current_token \<lparr>lexer = lexer_at ''add(5, 3)'' 3,
                            current_token = Token IDENTIFIER (StrV ''add'')\<rparr>) = IDENTIFIER
   \<and> current_char (lexer \<lparr>lexer = lexer_at ''add(5, 3)'' 3,
                          current_token = Token IDENTIFIER (StrV ''add'')\<rparr>) = Some (CHR ''('')
   \<and> statement (Suc 7) \<lparr>lexer = lexer_at ''add(5, 3)'' 3,
                         current_token = Token IDENTIFIER (StrV ''add'')\<rparr>
       = function_call 7 \<lparr>lexer = lexer_at ''add(5, 3)'' 3,
                           current_token = Token IDENTIFIER (StrV ''add'')\<rparr>
   \<and> tok_type (current_token \<lparr>lexer = lexer_at ''x = 1'' 1,
                              current_token = Token IDENTIFIER (StrV ''x'')\<rparr>) = IDENTIFIER
   \<and> current_char (lexer \<lparr>lexer = lexer_at ''x = 1'' 1,
                          current_token = Token IDENTIFIER (StrV ''x'')\<rparr>) = Some (CHR '' '')
   \<and> statement (Suc 7) \<lparr>lexer = lexer_at ''x = 1'' 1,
                         current_token = Token IDENTIFIER (StrV ''x'')\<rparr>
       = assignment_statement 7 \<lparr>lexer = lexer_at ''x = 1'' 1,
                                  current_token = Token IDENTIFIER (StrV ''x'')\<rparr>
   \<and> assignment_statement 7 \<lparr>lexer = lexer_at ''x = 1'' 1,
                               current_token = Token IDENTIFIER (StrV ''x'')\<rparr>
       = Inr (AssignNode (VariableNode (Token IDENTIFIER (StrV ''x''))) (Token ASSIGN (StrV ''=''))
                (NumberNode (Token INTEGER (IntV 1))),
              \<lparr>lexer = lexer_at ''x = 1'' 5, current_token = Token EOF NoneV\<rparr>)"
proof -
  let ?p = "\<lparr>lexer = lexer_at ''add(5, 3)'' 3, current_token = Token IDENTIFIER (StrV ''add'')\<rparr>"
  let ?q = "\<lparr>lexer = lexer_at ''x = 1'' 1, current_token = Token IDENTIFIER (StrV ''x'')\<rparr>"
  have a: "tok_type (current_token ?p) = IDENTIFIER" by simp
  have b: "current_char (lexer ?p) = Some (CHR ''('')" by (simp add: lexer_at_def)
  have c: "tok_type (current_token ?q) = IDENTIFIER" by simp
  have d: "current_char (lexer ?q) = Some (CHR '' '')" by (simp add: lexer_at_def)
  have e: "assignment_statement 7 ?q
       = Inr (AssignNode (VariableNode (Token IDENTIFIER (StrV ''x''))) (Token ASSIGN (StrV ''=''))
                (NumberNode (Token INTEGER (IntV 1))),
              \<lparr>lexer = lexer_at ''x = 1'' 5, current_token = Token EOF NoneV\<rparr>)"
    by code_simp
  from identifier_statement_dispatch [of ?p 7] a b
  have f: "statement (Suc 7) ?p = function_call 7 ?p" by simp
  from identifier_statement_dispatch [of ?q 7] c d
  have g: "statement (Suc 7) ?q = assignment_statement 7 ?q" by simp
  from a b c d e f g show ?thesis by blast
qed











section \<open>Errors\<close>









end
